theory Spec2Isabelle
  imports Main "HOL-Library.Product_Lexorder" "HOL-Library.Multiset"
begin

section \<open>Text primitives\<close>

text \<open>
  A Python \<open>str\<close> is a sequence of code points. The model uses \<open>string\<close> (a list of
  \<open>char\<close>), reading each \<open>char\<close> as the code point with the same number, so the model covers
  every text whose code points are below 256. The three character classes below are those of
  CPython on that range: \<open>\w\<close> of the \<open>re\<close> module (alphanumeric or underscore), \<open>\s\<close> of
  the \<open>re\<close> module, which is also the whitespace of \<open>str.strip()\<close> and \<open>str.split()\<close>, and
  \<open>str.lower()\<close>.
\<close>

definition in_range :: "nat \<Rightarrow> nat \<Rightarrow> char \<Rightarrow> bool" where
  "in_range lo hi c = (lo \<le> of_char c \<and> (of_char c :: nat) \<le> hi)"

definition is_word :: "char \<Rightarrow> bool" where
  "is_word c =
     (in_range 48 57 c \<or> in_range 65 90 c \<or> in_range 95 95 c \<or> in_range 97 122 c \<or>
      in_range 170 170 c \<or> in_range 178 179 c \<or> in_range 181 181 c \<or> in_range 185 186 c \<or>
      in_range 188 190 c \<or> in_range 192 214 c \<or> in_range 216 246 c \<or> in_range 248 255 c)"

definition is_space :: "char \<Rightarrow> bool" where
  "is_space c =
     (in_range 9 13 c \<or> in_range 28 32 c \<or> in_range 133 133 c \<or> in_range 160 160 c)"

definition is_digit :: "char \<Rightarrow> bool" where
  "is_digit c = in_range 48 57 c"

definition lower_char :: "char \<Rightarrow> char" where
  "lower_char c =
     (if in_range 65 90 c \<or> in_range 192 214 c \<or> in_range 216 222 c
      then char_of (of_char c + (32 :: nat)) else c)"

definition lower :: "string \<Rightarrow> string" where
  "lower s = map lower_char s"

definition newline :: char where
  "newline = CHR 0x0A"

text \<open>\<open>s.strip()\<close>: whitespace removed at both ends.\<close>

definition strip :: "string \<Rightarrow> string" where
  "strip s = rev (dropWhile is_space (rev (dropWhile is_space s)))"

text \<open>\<open>s.strip(c)\<close> for a one-character argument.\<close>

definition strip_char :: "char \<Rightarrow> string \<Rightarrow> string" where
  "strip_char q s = rev (dropWhile (\<lambda>c. c = q) (rev (dropWhile (\<lambda>c. c = q) s)))"

text \<open>
  \<open>s.split(sep)\<close> for a one-character separator: always at least one field.
\<close>

fun split :: "char \<Rightarrow> string \<Rightarrow> string list" where
  "split sep [] = [[]]"
| "split sep (c # cs) =
     (if c = sep then [] # split sep cs
      else (case split sep cs of f # fs \<Rightarrow> (c # f) # fs | [] \<Rightarrow> [[c]]))"

text \<open>\<open>s.split(sep, maxsplit)\<close>: at most \<open>maxsplit\<close> cuts, from the left.\<close>

fun split_max :: "char \<Rightarrow> nat \<Rightarrow> string \<Rightarrow> string list" where
  "split_max sep 0 s = [s]"
| "split_max sep (Suc n) s =
     (if sep \<in> set s
      then takeWhile (\<lambda>c. c \<noteq> sep) s # split_max sep n (tl (dropWhile (\<lambda>c. c \<noteq> sep) s))
      else [s])"

text \<open>
  \<open>s.split()\<close> without argument cuts at runs of whitespace and yields no empty field.
  The recursion follows the characters with the field being read as accumulator.
\<close>

fun split_ws_acc :: "string \<Rightarrow> string \<Rightarrow> string list" where
  "split_ws_acc acc [] = (if acc = [] then [] else [rev acc])"
| "split_ws_acc acc (c # cs) =
     (if is_space c
      then (if acc = [] then split_ws_acc [] cs else rev acc # split_ws_acc [] cs)
      else split_ws_acc (c # acc) cs)"

definition split_ws :: "string \<Rightarrow> string list" where
  "split_ws s = split_ws_acc [] s"

section \<open>The commit pattern\<close>

text \<open>
  The pattern of \<open>parse_commit_message\<close> is
  \<^verbatim>\<open>^(\w+)(?:\(([^)]+)\))?:\s*(.*)\<close>.
  It is written down twice: as a regular expression with its language, which says which
  texts the pattern accepts, and as the matcher \<open>re_match\<close>, which computes what
  \<open>re.match\<close> returns for this pattern, with its three groups.
\<close>

datatype rexp =
    Atom "char \<Rightarrow> bool"
  | Seq rexp rexp
  | Opt rexp
  | Star rexp
  | Plus rexp
  | Group rexp

inductive_set star :: "string set \<Rightarrow> string set" for A :: "string set" where
  star_empty: "[] \<in> star A"
| star_step: "a \<in> A \<Longrightarrow> w \<in> star A \<Longrightarrow> a @ w \<in> star A"

fun lang :: "rexp \<Rightarrow> string set" where
  "lang (Atom P) = {[c] | c. P c}"
| "lang (Seq r s) = {u @ v | u v. u \<in> lang r \<and> v \<in> lang s}"
| "lang (Opt r) = insert [] (lang r)"
| "lang (Star r) = star (lang r)"
| "lang (Plus r) = {u @ v | u v. u \<in> lang r \<and> v \<in> star (lang r)}"
| "lang (Group r) = lang r"

definition lit :: "char \<Rightarrow> rexp" where
  "lit c = Atom (\<lambda>x. x = c)"

definition not_chr :: "char \<Rightarrow> rexp" where
  "not_chr c = Atom (\<lambda>x. x \<noteq> c)"

definition pattern :: rexp where
  "pattern =
     Seq (Group (Plus (Atom is_word)))
    (Seq (Opt (Seq (lit CHR ''('') (Seq (Group (Plus (not_chr CHR '')''))) (lit CHR '')''))))
    (Seq (lit CHR '':'')
    (Seq (Star (Atom is_space))
         (Group (Star (not_chr newline))))))"

text \<open>\<open>re.match\<close> accepts a text when some prefix of it is in the language.\<close>

definition matches :: "rexp \<Rightarrow> string \<Rightarrow> bool" where
  "matches r s = (\<exists>p q. s = p @ q \<and> p \<in> lang r)"

text \<open>
  The end of the pattern, \<^verbatim>\<open>:\s*(.*)\<close>, at the front of a text: a colon, the longest run of
  whitespace, then group 3, the longest run of characters other than a newline.
\<close>

fun match_tail :: "string \<Rightarrow> string option" where
  "match_tail [] = None"
| "match_tail (c # r) =
     (if c = CHR '':'' then Some (takeWhile (\<lambda>x. x \<noteq> newline) (dropWhile is_space r))
      else None)"

text \<open>
  The scope, \<^verbatim>\<open>\(([^)]+)\)\<close>, at the front of a text: group 2 and the text that follows
  the closing parenthesis.
\<close>

fun match_scope :: "string \<Rightarrow> (string \<times> string) option" where
  "match_scope [] = None"
| "match_scope (c # r) =
     (if c = CHR ''(''
      then (let g = takeWhile (\<lambda>x. x \<noteq> CHR '')'') r; r' = dropWhile (\<lambda>x. x \<noteq> CHR '')'') r
            in if g \<noteq> [] \<and> r' \<noteq> [] then Some (g, tl r') else None)
      else None)"

text \<open>
  \<open>re.match(pattern, message)\<close>: the groups 1, 2 and 3 of the match, group 2 being \<open>None\<close>
  when the optional scope took no part. The scope is tried first; when the text after it
  does not go on with the colon, the matcher goes back and tries the colon without a scope.
\<close>

definition re_match :: "string \<Rightarrow> (string \<times> string option \<times> string) option" where
  "re_match message =
     (let g1 = takeWhile is_word message; r1 = dropWhile is_word message;
          no_scope = (case match_tail r1 of Some g3 \<Rightarrow> Some (g1, None, g3) | None \<Rightarrow> None)
      in if g1 = [] then None
         else (case match_scope r1 of
                 Some (g2, r2) \<Rightarrow>
                   (case match_tail r2 of Some g3 \<Rightarrow> Some (g1, Some g2, g3) | None \<Rightarrow> no_scope)
               | None \<Rightarrow> no_scope))"

section \<open>Commits\<close>

record GitCommit =
  hash :: string
  subject :: string
  author :: string
  date :: string
  type :: string
  scope :: string
  description :: string

definition parse_commit_message :: "string \<Rightarrow> string \<times> string \<times> string" where
  "parse_commit_message message =
     (case re_match message of
        Some (g1, g2, g3) \<Rightarrow>
          (lower g1, (case g2 of Some s \<Rightarrow> (if s \<noteq> [] then s else []) | None \<Rightarrow> []), g3)
      | None \<Rightarrow> (''other'', [], message))"

text \<open>The constructor \<open>GitCommit.__init__\<close>.\<close>

definition new_GitCommit :: "string \<Rightarrow> string \<Rightarrow> string \<Rightarrow> string \<Rightarrow> GitCommit" where
  "new_GitCommit h subj auth d =
     (case parse_commit_message subj of
        (t, sc, descr) \<Rightarrow>
          \<lparr>hash = h, subject = subj, author = auth, date = d,
           type = t, scope = sc, description = descr\<rparr>)"


text \<open>
  The shape of the optional scope in a subject: either nothing, or a non-empty text without
  a closing parenthesis, between parentheses. \<open>scope_text sp sc\<close> relates the piece \<open>sp\<close> of
  the subject with the scope \<open>sc\<close> it carries.
\<close>

definition scope_text :: "string \<Rightarrow> string \<Rightarrow> bool" where
  "scope_text sp sc =
     (sp = [] \<and> sc = [] \<or> sc \<noteq> [] \<and> CHR '')'' \<notin> set sc \<and> sp = ''('' @ sc @ '')'')"

section \<open>Errors, the git process and the world\<close>

datatype error =
    NotAGitRepository
  | NoTagsFound
  | NeedAtLeastTwoTags
  | CalledProcessError nat
  | OtherError
  | IndexError
  | ValueError

text \<open>
  What \<open>subprocess.run\<close> can do: the process ends with a return code and its standard
  output, or the call raises something else (the program cannot be started, an argument is
  not a string). With \<open>check=True\<close> a return code other than 0 raises \<open>CalledProcessError\<close>.
\<close>

datatype proc = Completed nat string | Failed

record env =
  repo_path :: string
  git :: "string list \<Rightarrow> proc"
  today :: string
  can_write :: "string \<Rightarrow> bool"
  title :: "string \<Rightarrow> string"

text \<open>
  The environment: the answers of git to each argument list, the date of the day as
  \<open>datetime.now().strftime\<close> prints it, which paths can be opened for writing, and
  \<open>str.title\<close>, whose results can leave the range of characters that is modelled.
  The world records what the program did: the git commands it ran, in order, and the files
  it wrote. Messages printed on the way are left out.
\<close>

record world =
  commands :: "string list list"
  files :: "(string \<times> string) list"

definition run_git_command ::
  "env \<Rightarrow> string list \<Rightarrow> bool \<Rightarrow> world \<Rightarrow> (error + string option) \<times> world" where
  "run_git_command e command allow_failure w =
     (let w' = w\<lparr>commands := commands w @ [command]\<rparr>
      in case git e command of
           Completed rc out \<Rightarrow>
             (if rc = 0 then (Inr (Some (strip out)), w')
              else if allow_failure then (Inr None, w')
              else (Inl (CalledProcessError rc), w'))
         | Failed \<Rightarrow> (Inl OtherError, w'))"

definition is_git_repo :: "env \<Rightarrow> world \<Rightarrow> (error + bool) \<times> world" where
  "is_git_repo e w =
     (case run_git_command e [''rev-parse'', ''--git-dir''] True w of
        (Inl err, w') \<Rightarrow> (Inl err, w')
      | (Inr r, w') \<Rightarrow> (Inr (r \<noteq> None), w'))"

text \<open>Python's truth value of a text that may be \<open>None\<close>, and its rendering in an f-string.\<close>

definition truthy :: "string option \<Rightarrow> bool" where
  "truthy t = (case t of None \<Rightarrow> False | Some s \<Rightarrow> s \<noteq> [])"

definition fmt :: "string option \<Rightarrow> string" where
  "fmt t = (case t of None \<Rightarrow> ''None'' | Some s \<Rightarrow> s)"

section \<open>Dates\<close>

text \<open>
  \<open>datetime.strptime(token, "%Y-%m-%d")\<close>. The format becomes the pattern
  \<^verbatim>\<open>(\d\d\d\d)-(1[0-2]|0[1-9]|[1-9])-(3[01]|[12]\d|0[1-9]|[1-9]| [1-9])\<close>, which must match
  at the start of the token and use all of it, and the three numbers must be a date of the
  calendar. Every failure is a \<open>ValueError\<close>, here \<open>None\<close>. The result has no time of day,
  so a \<open>datetime\<close> is the triple of year, month and day, which Python compares in this order.
\<close>

type_synonym datetime = "nat \<times> nat \<times> nat"

definition datetime_min :: datetime where
  "datetime_min = (1, 1, 1)"

definition digit_val :: "char \<Rightarrow> nat" where
  "digit_val c = of_char c - 48"

definition is_leap :: "nat \<Rightarrow> bool" where
  "is_leap y = (y mod 4 = 0 \<and> (y mod 100 \<noteq> 0 \<or> y mod 400 = 0))"

definition days_in_month :: "nat \<Rightarrow> nat \<Rightarrow> nat" where
  "days_in_month y m =
     (if m = 2 then (if is_leap y then 29 else 28)
      else if m = 4 \<or> m = 6 \<or> m = 9 \<or> m = 11 then 30 else 31)"

text \<open>The year: four digits.\<close>

fun parse_year :: "string \<Rightarrow> (nat \<times> string) option" where
  "parse_year (a # b # c # d # r) =
     (if is_digit a \<and> is_digit b \<and> is_digit c \<and> is_digit d
      then Some (1000 * digit_val a + 100 * digit_val b + 10 * digit_val c + digit_val d, r)
      else None)"
| "parse_year _ = None"

text \<open>
  The month, in the order of the alternatives \<^verbatim>\<open>1[0-2]|0[1-9]|[1-9]\<close>. A hyphen has to
  follow; when it does not follow the first alternative that fits, it does not follow a
  later one either, so the first one decides.
\<close>

definition one_to_nine :: "char \<Rightarrow> bool" where
  "one_to_nine c = in_range 49 57 c"

fun parse_month :: "string \<Rightarrow> (nat \<times> string) option" where
  "parse_month [] = None"
| "parse_month [a] = (if one_to_nine a then Some (digit_val a, []) else None)"
| "parse_month (a # b # r) =
     (if a = CHR ''1'' \<and> in_range 48 50 b then Some (10 + digit_val b, r)
      else if a = CHR ''0'' \<and> one_to_nine b then Some (digit_val b, r)
      else if one_to_nine a then Some (digit_val a, b # r)
      else None)"

text \<open>The day, in the order of the alternatives \<^verbatim>\<open>3[01]|[12]\d|0[1-9]|[1-9]| [1-9]\<close>.\<close>

fun parse_day :: "string \<Rightarrow> (nat \<times> string) option" where
  "parse_day [] = None"
| "parse_day [a] = (if one_to_nine a then Some (digit_val a, []) else None)"
| "parse_day (a # b # r) =
     (if a = CHR ''3'' \<and> in_range 48 49 b then Some (30 + digit_val b, r)
      else if in_range 49 50 a \<and> is_digit b then Some (10 * digit_val a + digit_val b, r)
      else if a = CHR ''0'' \<and> one_to_nine b then Some (digit_val b, r)
      else if one_to_nine a then Some (digit_val a, b # r)
      else if a = CHR '' '' \<and> one_to_nine b then Some (digit_val b, r)
      else None)"

definition hyphen :: "string \<Rightarrow> string option" where
  "hyphen s = (case s of c # r \<Rightarrow> (if c = CHR ''-'' then Some r else None) | [] \<Rightarrow> None)"

definition strptime :: "string \<Rightarrow> datetime option" where
  "strptime s =
     (case parse_year s of None \<Rightarrow> None
      | Some (y, r1) \<Rightarrow>
     (case hyphen r1 of None \<Rightarrow> None
      | Some r2 \<Rightarrow>
     (case parse_month r2 of None \<Rightarrow> None
      | Some (m, r3) \<Rightarrow>
     (case hyphen r3 of None \<Rightarrow> None
      | Some r4 \<Rightarrow>
     (case parse_day r4 of None \<Rightarrow> None
      | Some (d, r5) \<Rightarrow>
          (if r5 = [] \<and> 1 \<le> y \<and> d \<le> days_in_month y m then Some (y, m, d) else None))))))"

section \<open>Tags\<close>

definition quote :: char where
  "quote = CHR 0x27"

definition bar :: char where
  "bar = CHR ''|''"

text \<open>
  The loop of \<open>get_latest_tags\<close> over the lines of the listing. \<open>date_str.split()[0]\<close> raises
  \<open>IndexError\<close> when the date has no field; only the \<open>ValueError\<close> of \<open>strptime\<close> is caught
  inside the loop. Unpacking the two fields cannot fail, since the line has a bar.
\<close>

fun tags_loop :: "(string \<times> datetime) list \<Rightarrow> string list \<Rightarrow> error + (string \<times> datetime) list" where
  "tags_loop tags_with_date [] = Inr tags_with_date"
| "tags_loop tags_with_date (line # lines) =
     (if bar \<in> set line
      then (case split_max bar 1 (strip_char quote line) of
              [tag, date_str] \<Rightarrow>
                (case split_ws date_str of
                   [] \<Rightarrow> Inl IndexError
                 | tok # _ \<Rightarrow>
                     (case strptime tok of
                        Some date_obj \<Rightarrow> tags_loop (tags_with_date @ [(tag, date_obj)]) lines
                      | None \<Rightarrow> tags_loop (tags_with_date @ [(tag, datetime_min)]) lines))
            | _ \<Rightarrow> Inl ValueError)
      else tags_loop tags_with_date lines)"

text \<open>
  \<open>list.sort(key, reverse=True)\<close> is stable: it sorts in descending order of the key and
  keeps elements with equal keys in the order they had.
\<close>

definition sort_newest_first :: "(string \<times> datetime) list \<Rightarrow> (string \<times> datetime) list" where
  "sort_newest_first xs = rev (sort_key snd (rev xs))"

definition for_each_ref :: "string list" where
  "for_each_ref =
     [''for-each-ref'',
      ''--format='' @ [quote] @ ''%(refname:short)|%(creatordate:iso)'' @ [quote],
      ''refs/tags'']"

text \<open>The plain listing that \<open>get_latest_tags\<close> falls back to.\<close>

definition tag_listing :: "env \<Rightarrow> world \<Rightarrow> (error + string list) \<times> world" where
  "tag_listing e w =
     (case run_git_command e [''tag'', ''-l''] False w of
        (Inr (Some raw_tags), w') \<Rightarrow>
          (Inr (if raw_tags \<noteq> [] then split newline raw_tags else []), w')
      | (_, w') \<Rightarrow> (Inr [], w'))"

definition get_latest_tags :: "env \<Rightarrow> world \<Rightarrow> (error + string list) \<times> world" where
  "get_latest_tags e w =
     (case is_git_repo e w of
        (Inl err, w1) \<Rightarrow> (Inl err, w1)
      | (Inr False, w1) \<Rightarrow> (Inl NotAGitRepository, w1)
      | (Inr True, w1) \<Rightarrow>
          (case run_git_command e for_each_ref False w1 of
             (Inr (Some raw_tags), w2) \<Rightarrow>
               (if raw_tags \<noteq> []
                then (case tags_loop [] (split newline raw_tags) of
                        Inr tags_with_date \<Rightarrow>
                          (Inr (map fst (sort_newest_first tags_with_date)), w2)
                      | Inl _ \<Rightarrow> tag_listing e w2)
                else tag_listing e w2)
           | (_, w2) \<Rightarrow> tag_listing e w2))"


section \<open>Commits between two tags\<close>

text \<open>
  The body of the loop of \<open>get_commits_between_tags\<close> for one line of the log: the commit it
  appends, if any. A line is cut at most three times, so it has at most four fields and
  unpacking four of them cannot fail.
\<close>

definition log_line :: "string \<Rightarrow> error + GitCommit option" where
  "log_line line =
     (if strip line \<noteq> []
      then (let parts = split_max bar 3 line
            in if 4 \<le> length parts
               then (case parts of
                       [commit_hash, auth, d, subj] \<Rightarrow>
                         Inr (Some (new_GitCommit (take 8 commit_hash) subj auth d))
                     | _ \<Rightarrow> Inl ValueError)
               else Inr None)
      else Inr None)"

fun commits_loop :: "GitCommit list \<Rightarrow> string list \<Rightarrow> error + GitCommit list" where
  "commits_loop commits [] = Inr commits"
| "commits_loop commits (line # lines) =
     (case log_line line of
        Inl err \<Rightarrow> Inl err
      | Inr None \<Rightarrow> commits_loop commits lines
      | Inr (Some commit) \<Rightarrow> commits_loop (commits @ [commit]) lines)"

definition log_cmd :: "string option \<Rightarrow> string option \<Rightarrow> string list" where
  "log_cmd start_tag end_tag =
     [''log'', ''--oneline'', ''--pretty=format:%H|%an|%ad|%s'', fmt start_tag @ ''..'' @ fmt end_tag]"

definition get_commits_between_tags ::
  "env \<Rightarrow> string option \<Rightarrow> string option \<Rightarrow> world \<Rightarrow> (error + GitCommit list) \<times> world" where
  "get_commits_between_tags e start_tag end_tag w =
     (case run_git_command e (log_cmd start_tag end_tag) False w of
        (Inl err, w') \<Rightarrow> (Inl err, w')
      | (Inr raw_commits, w') \<Rightarrow>
          (if truthy raw_commits
           then (commits_loop [] (split newline (the raw_commits)), w')
           else (Inr [], w')))"

section \<open>Categories\<close>

text \<open>A \<open>dict\<close> keeps its keys in the order they were first stored: an association list.\<close>

definition COMMIT_TYPES :: "(string \<times> string) list" where
  "COMMIT_TYPES =
     [(''feat'', ''Features''),
      (''feature'', ''Features''),
      (''fix'', ''Bug Fixes''),
      (''bugfix'', ''Bug Fixes''),
      (''perf'', ''Performance Improvements''),
      (''performance'', ''Performance Improvements''),
      (''refactor'', ''Code Refactoring''),
      (''style'', ''Styling''),
      (''chore'', ''Chores''),
      (''docs'', ''Documentation''),
      (''doc'', ''Documentation''),
      (''test'', ''Tests''),
      (''testing'', ''Tests''),
      (''build'', ''Build System''),
      (''ci'', ''Continuous Integration''),
      (''revert'', ''Reverts''),
      (''other'', ''Other Changes'')]"

text \<open>\<open>d[k].append(x)\<close> on a dictionary of lists, for a key that is present.\<close>

fun dict_append :: "string \<Rightarrow> 'a \<Rightarrow> (string \<times> 'a list) list \<Rightarrow> (string \<times> 'a list) list" where
  "dict_append k x [] = []"
| "dict_append k x ((k', v) # d) =
     (if k' = k then (k', v @ [x]) # d else (k', v) # dict_append k x d)"

definition has_key :: "string \<Rightarrow> (string \<times> 'a) list \<Rightarrow> bool" where
  "has_key k d = (k \<in> set (map fst d))"

definition add_commit :: "(string \<times> GitCommit list) list \<Rightarrow> GitCommit \<Rightarrow> (string \<times> GitCommit list) list" where
  "add_commit categorized commit =
     (if has_key (type commit) categorized
      then dict_append (type commit) commit categorized
      else dict_append ''other'' commit categorized)"

definition categorize_commits :: "GitCommit list \<Rightarrow> (string \<times> GitCommit list) list" where
  "categorize_commits commits =
     (let categorized = map (\<lambda>commit_type_key. (commit_type_key, [])) (map fst COMMIT_TYPES)
      in filter (\<lambda>(k, v). v \<noteq> []) (foldl add_commit categorized commits))"

text \<open>
  The category a commit is filed under: its own type when the table has it, \<open>other\<close>
  when it has not.
\<close>

definition category_of :: "GitCommit \<Rightarrow> string" where
  "category_of commit =
     (if type commit \<in> set (map fst COMMIT_TYPES) then type commit else ''other'')"

section \<open>The document\<close>

definition digit_char :: "nat \<Rightarrow> char" where
  "digit_char d = char_of (48 + d)"

fun str_of_nat :: "nat \<Rightarrow> string" where
  "str_of_nat n = (if n < 10 then [digit_char n] else str_of_nat (n div 10) @ [digit_char (n mod 10)])"

definition nl :: string where
  "nl = [newline]"

definition commit_line :: "GitCommit \<Rightarrow> string" where
  "commit_line commit =
     (let scope_part = (if scope commit \<noteq> [] then '' **('' @ scope commit @ '')**'' else [])
      in ''- '' @ description commit @ scope_part @ '' ([`'' @ hash commit @
         ''`](https://github.com/unknown/unknown/commit/'' @ hash commit @ ''))'' @ nl)"

definition section_text :: "env \<Rightarrow> string \<times> GitCommit list \<Rightarrow> string" where
  "section_text e entry =
     (case entry of (commit_type, commit_list) \<Rightarrow>
        (let display_name = (case map_of COMMIT_TYPES commit_type of
                               Some n \<Rightarrow> n | None \<Rightarrow> title e commit_type)
         in ''## '' @ display_name @ nl @ nl @ concat (map commit_line commit_list) @ nl))"

definition all_commits_line :: "GitCommit \<Rightarrow> string" where
  "all_commits_line commit =
     ''- [`'' @ subject commit @ ''`]('' @ hash commit @ '') - '' @ author commit @ nl"

definition generate_markdown ::
  "env \<Rightarrow> string option \<Rightarrow> string option \<Rightarrow> GitCommit list \<Rightarrow> string option \<Rightarrow> string" where
  "generate_markdown e start_tag end_tag commits version_title =
     (let version_title' = (if truthy version_title then fmt version_title
                            else ''Release '' @ fmt end_tag);
          markdown = ''# '' @ version_title' @ nl @ nl @
                     ''**Release Date:** '' @ today e @ nl @ nl @
                     ''**Tags:** `'' @ fmt start_tag @ ''` ... `'' @ fmt end_tag @ ''`'' @ nl @ nl
      in if commits = [] then markdown @ ''No significant changes.'' @ nl @ nl
         else (let categorized = categorize_commits commits;
                   total_commits = length commits;
                   total_authors = card (set (map author commits))
               in markdown @
                  ''**Summary:** '' @ str_of_nat total_commits @ '' commits by '' @
                     str_of_nat total_authors @ '' authors'' @ nl @ nl @
                  concat (map (section_text e) categorized) @
                  ''## All Commits'' @ nl @ nl @
                  concat (map all_commits_line commits)))"

section \<open>Choosing the two tags\<close>

text \<open>
  The defaults of \<open>generate_release_notes\<close>. \<open>all_tags[0]\<close> raises \<open>IndexError\<close> on an empty
  list, and \<open>all_tags[1:]\<close> is the list without its first element. When the loop finds no
  tag, \<open>start_tag\<close> keeps the value it had.
\<close>

text \<open>The loop that looks for the first tag of a list that differs from \<open>end_tag\<close>.\<close>

definition first_other :: "string option \<Rightarrow> string list \<Rightarrow> string option" where
  "first_other end_tag tags = List.find (\<lambda>tag. Some tag \<noteq> end_tag) tags"

definition select_tags ::
  "string list \<Rightarrow> string option \<Rightarrow> string option \<Rightarrow> error + (string option \<times> string option)" where
  "select_tags all_tags start_tag end_tag =
     (case (if \<not> truthy end_tag
            then (case all_tags of [] \<Rightarrow> Inl IndexError | t # _ \<Rightarrow> Inr (Some t))
            else Inr end_tag) of
        Inl err \<Rightarrow> Inl err
      | Inr end_tag' \<Rightarrow>
          Inr (if \<not> truthy start_tag
               then (case first_other end_tag' (drop 1 all_tags) of
                       Some tag \<Rightarrow> Some tag
                     | None \<Rightarrow> start_tag)
               else start_tag,
               end_tag'))"

text \<open>
  The check of the order. A tag that is \<open>None\<close> makes \<open>subprocess.run\<close> raise before any
  process is started, and the bare \<open>except\<close> swallows it. The first command runs with
  \<open>allow_failure=True\<close>; the second raises \<open>CalledProcessError\<close> on every return code other
  than 0, which the inner handler answers by swapping the tags, while anything else that is
  raised reaches the bare \<open>except\<close>.
\<close>

definition correct_order ::
  "env \<Rightarrow> string option \<Rightarrow> string option \<Rightarrow> world \<Rightarrow> (string option \<times> string option) \<times> world" where
  "correct_order e start_tag end_tag w =
     (case (start_tag, end_tag) of
        (Some s, Some t) \<Rightarrow>
          (case run_git_command e [''merge-base'', s, t] True w of
             (Inl _, w1) \<Rightarrow> ((start_tag, end_tag), w1)
           | (Inr result, w1) \<Rightarrow>
               (if truthy result
                then (case run_git_command e [''merge-base'', ''--is-ancestor'', s, t] False w1 of
                        (Inl (CalledProcessError _), w2) \<Rightarrow> ((end_tag, start_tag), w2)
                      | (_, w2) \<Rightarrow> ((start_tag, end_tag), w2))
                else ((start_tag, end_tag), w1)))
      | _ \<Rightarrow> ((start_tag, end_tag), w))"

section \<open>The whole run\<close>

definition generate_release_notes ::
  "env \<Rightarrow> string option \<Rightarrow> string option \<Rightarrow> string \<Rightarrow> string option \<Rightarrow> world
     \<Rightarrow> (error + string) \<times> world" where
  "generate_release_notes e start_tag end_tag output_file version_title w =
     (case is_git_repo e w of
        (Inl err, w1) \<Rightarrow> (Inl err, w1)
      | (Inr False, w1) \<Rightarrow> (Inl NotAGitRepository, w1)
      | (Inr True, w1) \<Rightarrow>
     (case get_latest_tags e w1 of
        (Inl err, w2) \<Rightarrow> (Inl err, w2)
      | (Inr all_tags, w2) \<Rightarrow>
          (if all_tags = [] then (Inl NoTagsFound, w2)
           else if length all_tags < 2 then (Inl NeedAtLeastTwoTags, w2)
           else
     (case select_tags all_tags start_tag end_tag of
        Inl err \<Rightarrow> (Inl err, w2)
      | Inr (start1, end1) \<Rightarrow>
     (case correct_order e start1 end1 w2 of
        ((start2, end2), w3) \<Rightarrow>
     (case get_commits_between_tags e start2 end2 w3 of
        (Inl err, w4) \<Rightarrow> (Inl err, w4)
      | (Inr commits, w4) \<Rightarrow>
          (let markdown_content = generate_markdown e start2 end2 commits version_title
           in if can_write e output_file
              then (Inr markdown_content, w4\<lparr>files := files w4 @ [(output_file, markdown_content)]\<rparr>)
              else (Inl OtherError, w4))))))))"


text \<open>
  The commands that check the repository and list its tags; the log command is not among
  them.
\<close>

definition tag_commands :: "string list set" where
  "tag_commands = {[''rev-parse'', ''--git-dir''], for_each_ref, [''tag'', ''-l'']}"

text \<open>What one line of the log adds to the list of commits, when it raises nothing.\<close>

definition line_commits :: "string \<Rightarrow> GitCommit list" where
  "line_commits line = (case log_line line of Inr (Some commit) \<Rightarrow> [commit] | _ \<Rightarrow> [])"

section \<open>Example repositories\<close>

text \<open>
  Concrete environments for the examples below: git answers from a table of argument lists,
  and every other command cannot be run.
\<close>

definition answers :: "(string list \<times> proc) list \<Rightarrow> string list \<Rightarrow> proc" where
  "answers table command = (case map_of table command of Some r \<Rightarrow> r | None \<Rightarrow> Failed)"

definition example_env :: "(string list \<times> proc) list \<Rightarrow> env" where
  "example_env table =
     \<lparr>repo_path = ''.'', git = answers table, today = ''2026-01-01'',
      can_write = (\<lambda>_. True), title = (\<lambda>s. s)\<rparr>"

definition empty_world :: world where
  "empty_world = \<lparr>commands = [], files = []\<rparr>"

definition rev_parse :: "string list \<times> proc" where
  "rev_parse = ([''rev-parse'', ''--git-dir''], Completed 0 (''.git'' @ nl))"

text \<open>A line of the tag listing as git prints it for the format of \<open>for_each_ref\<close>.\<close>

definition ref_line :: "string \<Rightarrow> string \<Rightarrow> string" where
  "ref_line tag created = [quote] @ tag @ [bar] @ created @ [quote] @ nl"

text \<open>The three tags of the specification: A of March, B of January, C of February.\<close>

definition three_tags_repo :: env where
  "three_tags_repo = example_env
     [rev_parse,
      (for_each_ref, Completed 0
         (ref_line ''A'' ''2023-03-01 10:00:00 +0000'' @
          ref_line ''B'' ''2023-01-01 10:00:00 +0000'' @
          ref_line ''C'' ''2023-02-01 10:00:00 +0000''))]"

text \<open>
  A repository with a tag on a tree, which has no creation date, and a tag on a commit.
\<close>

definition tree_tag_repo :: env where
  "tree_tag_repo = example_env
     [rev_parse,
      (for_each_ref, Completed 0
         (ref_line ''a-tree'' [] @ ref_line ''v2'' ''2023-03-01 10:00:00 +0000'')),
      ([''tag'', ''-l''], Completed 0 (''a-tree'' @ nl @ ''v2'' @ nl))]"

text \<open>The same repository with a date that is not a date instead of the missing one.\<close>

definition bad_date_repo :: env where
  "bad_date_repo = example_env
     [rev_parse,
      (for_each_ref, Completed 0
         (ref_line ''a-tree'' ''unknown'' @ ref_line ''v2'' ''2023-03-01 10:00:00 +0000'')),
      ([''tag'', ''-l''], Completed 0 (''a-tree'' @ nl @ ''v2'' @ nl))]"

definition one_tag_repo :: env where
  "one_tag_repo = example_env
     [rev_parse,
      (for_each_ref, Completed 0 (ref_line ''v1'' ''2023-03-01 10:00:00 +0000''))]"

text \<open>
  Answers to the two ancestry commands for the tags \<open>v1\<close> and \<open>v2\<close>: a common ancestor and
  the return code of \<open>merge-base --is-ancestor\<close>, which is 0 for an ancestor, 1 for no
  ancestor and something else when the command itself fails.
\<close>

definition ancestry_repo :: "nat \<Rightarrow> env" where
  "ancestry_repo rc = example_env
     [([''merge-base'', ''v1'', ''v2''], Completed 0 (''0a1b2c3d'' @ nl)),
      ([''merge-base'', ''--is-ancestor'', ''v1'', ''v2''], Completed rc [])]"

text \<open>No common ancestor: \<open>merge-base\<close> ends with return code 1.\<close>

definition unrelated_repo :: env where
  "unrelated_repo = example_env
     [([''merge-base'', ''v1'', ''v2''], Completed 1 []),
      ([''merge-base'', ''--is-ancestor'', ''v1'', ''v2''], Completed 1 [])]"

text \<open>Three commits: two fixes, one of them with a scope, and a type the table does not have.\<close>

definition example_commits :: "GitCommit list" where
  "example_commits =
     [new_GitCommit ''a1'' ''fix: first'' ''Ann'' ''Mon'',
      new_GitCommit ''b2'' ''wip: second'' ''Bob'' ''Tue'',
      new_GitCommit ''c3'' ''Fix(api): third'' ''Ann'' ''Wed'']"

text \<open>
  A log of four lines: a full record whose subject has a bar, a blank line, a line of three
  fields and a full record.
\<close>

definition log_repo :: env where
  "log_repo = example_env
     [(log_cmd (Some ''v1'') (Some ''v2''), Completed 0
        (''0123456789abcdef|Ann|Mon Mar 6|feat(ui): add a | b'' @ nl @
         ''   '' @ nl @
         ''fedcba98|Bob|Tue'' @ nl @
         ''89abcdef01234567|Bob|Tue Mar 7|Update README'' @ nl))]"

section \<open>The pattern and its matcher\<close>

lemma star_atoms: "star {[c] | c. P c} = {w. \<forall>c\<in>set w. P c}"
proof (intro set_eqI iffI)
  fix w assume "w \<in> star {[c] | c. P c}"
  then show "w \<in> {w. \<forall>c\<in>set w. P c}"
    by (induction rule: star.induct) auto
next
  fix w assume "w \<in> {w. \<forall>c\<in>set w. P c}"
  then have "\<forall>c\<in>set w. P c" by simp
  then show "w \<in> star {[c] | c. P c}"
  proof (induction w)
    case Nil
    show ?case by (rule star_empty)
  next
    case (Cons a w)
    have "[a] \<in> {[c] | c. P c}" using Cons.prems by simp
    moreover have "w \<in> star {[c] | c. P c}" using Cons by simp
    ultimately have "[a] @ w \<in> star {[c] | c. P c}" by (rule star_step)
    then show ?case by simp
  qed
qed

lemma lang_plus_atom: "lang (Plus (Atom P)) = {w. w \<noteq> [] \<and> (\<forall>c\<in>set w. P c)}"
proof (intro set_eqI iffI)
  fix w assume "w \<in> lang (Plus (Atom P))"
  then show "w \<in> {w. w \<noteq> [] \<and> (\<forall>c\<in>set w. P c)}"
    by (auto simp: star_atoms)
next
  fix w assume "w \<in> {w. w \<noteq> [] \<and> (\<forall>c\<in>set w. P c)}"
  then obtain a v where w: "w = [a] @ v" and "P a" "\<forall>x\<in>set v. P x" by (cases w) auto
  then have "[a] \<in> lang (Atom P)" "v \<in> star (lang (Atom P))"
    by (simp_all add: star_atoms)
  then show "w \<in> lang (Plus (Atom P))"
    unfolding w lang.simps(5) by blast
qed

lemma lang_star_atom: "lang (Star (Atom P)) = {w. \<forall>c\<in>set w. P c}"
  by (simp add: star_atoms)

lemma lang_scope:
  "lang (Opt (Seq (lit CHR ''('') (Seq (Group (Plus (not_chr CHR '')''))) (lit CHR '')'')))) =
     {sp. \<exists>sc. scope_text sp sc}"
  unfolding lit_def not_chr_def lang.simps(2,3,6) lang_plus_atom
  by (auto simp: scope_text_def)

lemma lang_pattern:
  "lang pattern =
     {w @ sp @ '':'' @ ws @ d | w sp ws d.
        w \<noteq> [] \<and> (\<forall>c\<in>set w. is_word c) \<and> (\<exists>sc. scope_text sp sc) \<and>
        (\<forall>c\<in>set ws. is_space c) \<and> newline \<notin> set d}"
proof -
  have tail: "lang (Seq (lit CHR '':'') (Seq (Star (Atom is_space)) (Group (Star (not_chr newline))))) =
      {'':'' @ ws @ d | ws d. (\<forall>c\<in>set ws. is_space c) \<and> newline \<notin> set d}"
    unfolding lit_def not_chr_def lang.simps(2,6) lang_star_atom by auto
  show ?thesis
    unfolding pattern_def lang.simps(2)[of "Group _"] lang.simps(2)[of "Opt _"] lang.simps(6)[of "Plus _"] lang_plus_atom lang_scope tail
    by (auto; blast)
qed


lemma not_word_paren: "\<not> is_word CHR ''(''"
  by (simp add: is_word_def in_range_def)

lemma not_word_colon: "\<not> is_word CHR '':''"
  by (simp add: is_word_def in_range_def)

lemma match_tail_colon:
  "match_tail ('':'' @ tail) = Some (takeWhile (\<lambda>x. x \<noteq> newline) (dropWhile is_space tail))"
  by simp

lemma match_tail_Some:
  "match_tail r = Some g \<Longrightarrow>
     \<exists>tail. r = '':'' @ tail \<and> g = takeWhile (\<lambda>x. x \<noteq> newline) (dropWhile is_space tail)"
  by (cases r) (auto split: if_splits)

lemma match_scope_paren:
  assumes "sc \<noteq> []" and "CHR '')'' \<notin> set sc"
  shows "match_scope (''('' @ sc @ '')'' @ r) = Some (sc, r)"
proof -
  have "takeWhile (\<lambda>x. x \<noteq> CHR '')'') (sc @ CHR '')'' # r) = sc"
    using assms(2) by (induction sc) auto
  moreover have "dropWhile (\<lambda>x. x \<noteq> CHR '')'') (sc @ CHR '')'' # r) = CHR '')'' # r"
    using assms(2) by (induction sc) auto
  ultimately show ?thesis using assms(1) by simp
qed

lemma match_scope_Some:
  assumes "match_scope r = Some (g, r2)"
  shows "r = ''('' @ g @ '')'' @ r2 \<and> g \<noteq> [] \<and> CHR '')'' \<notin> set g"
proof (cases r)
  case Nil
  with assms show ?thesis by simp
next
  case (Cons c r')
  let ?P = "\<lambda>x. x \<noteq> CHR '')''"
  from assms Cons have c: "c = CHR ''(''"
    and g: "g = takeWhile ?P r'" and ne: "g \<noteq> []" "dropWhile ?P r' \<noteq> []"
    and r2: "r2 = tl (dropWhile ?P r')"
    by (auto simp: Let_def split: if_splits)
  have "hd (dropWhile ?P r') = CHR '')''"
    using ne(2) hd_dropWhile[of ?P r'] by auto
  then have "dropWhile ?P r' = CHR '')'' # r2"
    using ne(2) r2 by (cases "dropWhile ?P r'") auto
  then have "r' = g @ CHR '')'' # r2"
    using takeWhile_dropWhile_id[of ?P r'] g by simp
  moreover have "CHR '')'' \<notin> set g"
    unfolding g by (auto dest: set_takeWhileD)
  ultimately show ?thesis using Cons c ne(1) by simp
qed

lemma match_scope_colon: "match_scope ('':'' @ tail) = None"
  by simp

lemma word_prefix:
  assumes "\<forall>c\<in>set w. is_word c" and "r = [] \<or> \<not> is_word (hd r)"
  shows "takeWhile is_word (w @ r) = w" and "dropWhile is_word (w @ r) = r"
proof -
  have r: "takeWhile is_word r = []" "dropWhile is_word r = r"
    using assms(2) by (cases r; simp)+
  show "takeWhile is_word (w @ r) = w" using assms(1) r by (induction w) auto
  show "dropWhile is_word (w @ r) = r" using assms(1) r by (induction w) auto
qed

lemma re_match_form:
  assumes "w \<noteq> []" and "\<forall>c\<in>set w. is_word c" and "scope_text sp sc"
  shows "re_match (w @ sp @ '':'' @ tail) =
     Some (w, (if sp = [] then None else Some sc),
           takeWhile (\<lambda>x. x \<noteq> newline) (dropWhile is_space tail))"
proof (cases "sp = []")
  case True
  have "takeWhile is_word (w @ '':'' @ tail) = w" "dropWhile is_word (w @ '':'' @ tail) = '':'' @ tail"
    using word_prefix[OF assms(2), of "'':'' @ tail"] not_word_colon by simp_all
  then show ?thesis
    using True assms(1) unfolding re_match_def by (simp add: Let_def)
next
  case False
  then have sc: "sc \<noteq> []" "CHR '')'' \<notin> set sc" and sp: "sp = ''('' @ sc @ '')''"
    using assms(3) by (auto simp: scope_text_def)
  let ?r = "''('' @ sc @ '')'' @ '':'' @ tail"
  have "takeWhile is_word (w @ ?r) = w" "dropWhile is_word (w @ ?r) = ?r"
    using word_prefix[OF assms(2), of ?r] not_word_paren by simp_all
  moreover have "match_scope ?r = Some (sc, '':'' @ tail)"
    by (rule match_scope_paren[OF sc])
  ultimately have "re_match (w @ ?r) =
     Some (w, Some sc, takeWhile (\<lambda>x. x \<noteq> newline) (dropWhile is_space tail))"
    using assms(1) unfolding re_match_def by (simp add: Let_def del: match_scope.simps)
  then show ?thesis using False sp by simp
qed

lemma re_match_Some:
  assumes "re_match s = Some (g1, g2, g3)"
  shows "\<exists>sp sc tail. s = g1 @ sp @ '':'' @ tail \<and> g1 \<noteq> [] \<and> (\<forall>c\<in>set g1. is_word c) \<and>
           scope_text sp sc \<and> g2 = (if sp = [] then None else Some sc) \<and>
           g3 = takeWhile (\<lambda>x. x \<noteq> newline) (dropWhile is_space tail)"
proof -
  let ?r1 = "dropWhile is_word s"
  have g1: "g1 = takeWhile is_word s" "g1 \<noteq> []"
    using assms unfolding re_match_def
    by (auto simp: Let_def split: if_splits option.splits)
  have s: "s = g1 @ ?r1"
    unfolding g1(1) by simp
  have word: "\<forall>c\<in>set g1. is_word c"
    unfolding g1(1) by (auto dest: set_takeWhileD)
  consider (scoped) sc r2 where "match_scope ?r1 = Some (sc, r2)" "match_tail r2 = Some g3" "g2 = Some sc"
    | (plain) "match_tail ?r1 = Some g3" "g2 = None"
    using assms unfolding re_match_def
    by (auto simp: Let_def split: if_splits option.splits)
  then show ?thesis
  proof cases
    case scoped
    from match_scope_Some[OF scoped(1)]
    have r1: "?r1 = ''('' @ sc @ '')'' @ r2" and sc: "sc \<noteq> []" "CHR '')'' \<notin> set sc" by auto
    from match_tail_Some[OF scoped(2)] obtain tail where
      tail: "r2 = '':'' @ tail" "g3 = takeWhile (\<lambda>x. x \<noteq> newline) (dropWhile is_space tail)" by auto
    have "s = g1 @ (''('' @ sc @ '')'') @ '':'' @ tail"
      using s r1 tail(1) by simp
    moreover have "scope_text (''('' @ sc @ '')'') sc"
      using sc by (simp add: scope_text_def)
    ultimately show ?thesis using g1(2) word scoped(3) tail(2)
      by (intro exI[of _ "''('' @ sc @ '')''"] exI[of _ sc] exI[of _ tail]) simp
  next
    case plain
    from match_tail_Some[OF plain(1)] obtain tail where
      tail: "?r1 = '':'' @ tail" "g3 = takeWhile (\<lambda>x. x \<noteq> newline) (dropWhile is_space tail)" by auto
    have "s = g1 @ [] @ '':'' @ tail" using s tail(1) by simp
    moreover have "scope_text [] []" by (simp add: scope_text_def)
    ultimately show ?thesis using g1(2) word plain(2) tail(2)
      by (intro exI[of _ "[]"] exI[of _ "[]"] exI[of _ tail]) simp
  qed
qed

lemma lang_patternI:
  assumes "w \<noteq> []" and "\<forall>c\<in>set w. is_word c" and "scope_text sp sc"
  shows "w @ sp @ '':'' \<in> lang pattern"
proof -
  have "\<exists>w' sp' ws d. w @ sp @ '':'' = w' @ sp' @ '':'' @ ws @ d \<and>
        w' \<noteq> [] \<and> (\<forall>c\<in>set w'. is_word c) \<and> (\<exists>sc. scope_text sp' sc) \<and>
        (\<forall>c\<in>set ws. is_space c) \<and> newline \<notin> set d"
    using assms
    by (intro exI[of _ w] exI[of _ sp] exI[of _ "[]"]) auto
  then show ?thesis unfolding lang_pattern by simp
qed

lemma lang_patternD:
  assumes "p \<in> lang pattern"
  shows "\<exists>w sp sc tail. p = w @ sp @ '':'' @ tail \<and> w \<noteq> [] \<and> (\<forall>c\<in>set w. is_word c) \<and>
           scope_text sp sc"
proof -
  from assms have "\<exists>w sp ws d. p = w @ sp @ '':'' @ ws @ d \<and>
        w \<noteq> [] \<and> (\<forall>c\<in>set w. is_word c) \<and> (\<exists>sc. scope_text sp sc) \<and>
        (\<forall>c\<in>set ws. is_space c) \<and> newline \<notin> set d"
    unfolding lang_pattern by simp
  then obtain w sp ws d where p: "p = w @ sp @ '':'' @ ws @ d"
    and f: "w \<noteq> []" "\<forall>c\<in>set w. is_word c" "\<exists>sc. scope_text sp sc"
    by blast
  from f(3) obtain sc where "scope_text sp sc" ..
  with p f(1,2) show ?thesis by (intro exI[of _ w] exI[of _ sp] exI[of _ sc] exI[of _ "ws @ d"]) simp
qed

lemma re_match_iff_matches: "(re_match s \<noteq> None) = matches pattern s"
proof
  assume "re_match s \<noteq> None"
  then obtain g1 g2 g3 where "re_match s = Some (g1, g2, g3)" by auto
  from re_match_Some[OF this] obtain sp sc tail where
    s: "s = g1 @ sp @ '':'' @ tail" and f: "g1 \<noteq> []" "\<forall>c\<in>set g1. is_word c" "scope_text sp sc"
    by blast
  have "g1 @ sp @ '':'' \<in> lang pattern" by (rule lang_patternI[OF f])
  moreover have "s = (g1 @ sp @ '':'') @ tail" unfolding s by simp
  ultimately show "matches pattern s" unfolding matches_def by blast
next
  assume "matches pattern s"
  then obtain p q where s: "s = p @ q" and "p \<in> lang pattern"
    unfolding matches_def by blast
  from lang_patternD[OF this(2)] obtain w sp sc tail where p: "p = w @ sp @ '':'' @ tail"
    and f: "w \<noteq> []" "\<forall>c\<in>set w. is_word c" "scope_text sp sc"
    by blast
  have "re_match (w @ sp @ '':'' @ (tail @ q)) \<noteq> None"
    unfolding re_match_form[OF f] by simp
  moreover have "s = w @ sp @ '':'' @ (tail @ q)" unfolding s p by simp
  ultimately show "re_match s \<noteq> None" by simp
qed

lemma parse_form:
  assumes "w \<noteq> []" and "\<forall>c\<in>set w. is_word c" and "scope_text sp sc"
  shows "parse_commit_message (w @ sp @ '':'' @ tail) =
     (lower w, sc, takeWhile (\<lambda>x. x \<noteq> newline) (dropWhile is_space tail))"
proof -
  have "sp = [] \<Longrightarrow> sc = []" using assms(3) by (auto simp: scope_text_def)
  moreover have "sp \<noteq> [] \<Longrightarrow> sc \<noteq> []" using assms(3) by (auto simp: scope_text_def)
  ultimately show ?thesis
    unfolding parse_commit_message_def re_match_form[OF assms] by auto
qed


section \<open>Parsing a commit subject\<close>

lemmas char_class_defs =
  is_word_def is_space_def is_digit_def in_range_def lower_def lower_char_def newline_def

text \<open>
  Claim C1. A subject of the form \<open>type(scope): description\<close>, that is a non-empty token of
  word characters, an optional scope (a non-empty text without closing parenthesis, in
  parentheses), a colon, a non-empty run of whitespace, and then the rest of the line, is
  parsed into the token in lower case, the text inside the parentheses (the empty text when
  there is no scope), and the rest of the line as it stands, further colons included. The
  rest of the line begins where the whitespace ends and, being the rest of a line, holds no
  newline.
\<close>

theorem parse_conventional_subject:
  assumes "ty \<noteq> []" and "\<forall>c\<in>set ty. is_word c" and "scope_text sp sc"
    and "ws \<noteq> []" and "\<forall>c\<in>set ws. is_space c"
    and "rest = [] \<or> \<not> is_space (hd rest)" and "newline \<notin> set rest"
  shows "parse_commit_message (ty @ sp @ '':'' @ ws @ rest) = (lower ty, sc, rest)"
proof -
  have "dropWhile is_space (ws @ rest) = rest"
    using assms(5,6) by (induction ws) (auto simp: dropWhile_eq_self_iff)
  moreover have "takeWhile (\<lambda>x. x \<noteq> newline) rest = rest"
    using assms(7) by (auto simp: takeWhile_eq_all_conv)
  ultimately show ?thesis
    using parse_form[OF assms(1-3), of "ws @ rest"] by simp
qed

theorem parse_conventional_subject_witness:
  "scope_text ''(auth)'' ''auth'' \<and> list_all is_word ''feat'' \<and> list_all is_space '' '' \<and>
   parse_commit_message ''feat(auth): add login functionality'' =
     (''feat'', ''auth'', ''add login functionality'')"
  using parse_conventional_subject[of "''feat''" "''(auth)''" "''auth''" "'' ''" "''add login functionality''"]
  by (simp add: scope_text_def char_class_defs)

text \<open>
  Claim C2. \<open>parse_commit_message\<close> returns a triple on every text: the function has no
  error result, because no path of the source raises, and being a function it gives the same
  triple each time it is applied to the same subject. On every text that the pattern does
  not accept, the empty text among them, the triple is the category \<open>other\<close>, the empty
  scope and the whole text unchanged.
\<close>

theorem parse_commit_message_total:
  "(\<exists>category scope_part descr. parse_commit_message message = (category, scope_part, descr)) \<and>
   (\<not> matches pattern message \<longrightarrow> parse_commit_message message = (''other'', [], message)) \<and>
   parse_commit_message [] = (''other'', [], [])"
proof (intro conjI impI)
  show "\<exists>category scope_part descr. parse_commit_message message = (category, scope_part, descr)"
    by (cases "parse_commit_message message") auto
  show "parse_commit_message [] = (''other'', [], [])"
    by (simp add: parse_commit_message_def re_match_def)
  assume "\<not> matches pattern message"
  then have "re_match message = None"
    using re_match_iff_matches[of message] by blast
  then show "parse_commit_message message = (''other'', [], message)"
    by (simp add: parse_commit_message_def)
qed

theorem parse_commit_message_total_witness:
  "\<not> matches pattern ''Update README file'' \<and>
   parse_commit_message ''Update README file'' = (''other'', [], ''Update README file'')"
proof -
  have "re_match ''Update README file'' = None"
    by (simp add: re_match_def char_class_defs)
  then have "\<not> matches pattern ''Update README file''"
    using re_match_iff_matches[of "''Update README file''"] by simp
  then show ?thesis
    using parse_commit_message_total[of "''Update README file''"] by simp
qed

text \<open>
  Claim C3. When the leading token of word characters is directly followed by the empty
  scope \<open>()\<close>, the pattern does not match, whatever follows: the result is the category
  \<open>other\<close>, the empty scope and the whole line as description.
\<close>

theorem empty_scope_is_other:
  assumes "\<forall>c\<in>set w. is_word c"
  shows "parse_commit_message (w @ ''()'' @ rest) = (''other'', [], w @ ''()'' @ rest)"
proof -
  have "takeWhile is_word (w @ ''()'' @ rest) = w" "dropWhile is_word (w @ ''()'' @ rest) = ''()'' @ rest"
    using word_prefix[OF assms, of "''()'' @ rest"] not_word_paren by simp_all
  then have "re_match (w @ ''()'' @ rest) = None"
    unfolding re_match_def by (simp add: Let_def)
  then show ?thesis by (simp add: parse_commit_message_def)
qed

theorem empty_scope_is_other_witness:
  "list_all is_word ''chore'' \<and> parse_commit_message ''chore(): '' = (''other'', [], ''chore(): '')"
  using empty_scope_is_other[of "''chore''" "'': ''"]
  by (simp add: char_class_defs)

text \<open>
  Claim C4 says that a line with no whitespace after the colon, such as \<open>fix:desc\<close>, does
  not match and is filed under \<open>other\<close>. The pattern asks for any number of whitespace
  characters after the colon, none included, so the line matches.
\<close>

theorem no_space_after_colon_counterexample:
  "parse_commit_message ''fix:desc'' = (''fix'', [], ''desc'') \<and>
   parse_commit_message ''fix:desc'' \<noteq> (''other'', [], ''fix:desc'')"
  by (simp add: parse_commit_message_def re_match_def char_class_defs)

text \<open>
  Claim C4 as the code has it: a line made of a token of word characters, an optional
  non-empty scope in parentheses, a colon and then at once a character that is not
  whitespace matches the pattern, and it is parsed into the token in lower case, the scope
  (empty when absent) and the rest of the line after the colon.
\<close>

theorem no_space_after_colon:
  assumes "ty \<noteq> []" and "\<forall>c\<in>set ty. is_word c" and "scope_text sp sc"
    and "rest \<noteq> []" and "\<not> is_space (hd rest)" and "newline \<notin> set rest"
  shows "matches pattern (ty @ sp @ '':'' @ rest) \<and>
         parse_commit_message (ty @ sp @ '':'' @ rest) = (lower ty, sc, rest)"
proof
  have "re_match (ty @ sp @ '':'' @ rest) \<noteq> None"
    unfolding re_match_form[OF assms(1-3)] by simp
  then show "matches pattern (ty @ sp @ '':'' @ rest)"
    using re_match_iff_matches[of "ty @ sp @ '':'' @ rest"] by simp
  have "dropWhile is_space rest = rest"
    using assms(4,5) by (cases rest) auto
  moreover have "takeWhile (\<lambda>x. x \<noteq> newline) rest = rest"
    using assms(6) by (auto simp: takeWhile_eq_all_conv)
  ultimately show "parse_commit_message (ty @ sp @ '':'' @ rest) = (lower ty, sc, rest)"
    using parse_form[OF assms(1-3), of rest] by simp
qed

theorem no_space_after_colon_witness:
  "scope_text [] [] \<and> list_all is_word ''fix'' \<and> \<not> is_space (hd ''desc'') \<and>
   matches pattern ''fix:desc'' \<and> parse_commit_message ''fix:desc'' = (''fix'', [], ''desc'')"
  using no_space_after_colon[of "''fix''" "[]" "[]" "''desc''"]
  by (simp add: scope_text_def char_class_defs)

section \<open>Tags by date\<close>

lemma sort_newest_first_mset: "mset (sort_newest_first xs) = mset xs"
  by (simp add: sort_newest_first_def)

lemma sort_newest_first_sorted: "sorted (rev (map snd (sort_newest_first xs)))"
  by (simp add: sort_newest_first_def rev_map)

text \<open>
  In a git repository \<open>get_latest_tags\<close> always returns a list: whatever goes wrong with the
  dated listing, the plain listing answers, with the empty list at worst.
\<close>

lemma tag_listing_returns: "\<exists>tags. fst (tag_listing e w) = Inr tags"
  by (auto simp: tag_listing_def split: prod.splits sum.splits option.splits)

lemma get_latest_tags_returns:
  assumes "fst (is_git_repo e w) = Inr True"
  shows "\<exists>tags. fst (get_latest_tags e w) = Inr tags"
proof -
  obtain w1 where repo: "is_git_repo e w = (Inr True, w1)"
    using assms by (cases "is_git_repo e w") auto
  obtain r w2 where run: "run_git_command e for_each_ref False w1 = (r, w2)"
    by (cases "run_git_command e for_each_ref False w1") auto
  show ?thesis
    using tag_listing_returns[of e w2]
    by (auto simp: get_latest_tags_def repo run split: sum.splits option.splits)
qed

lemma three_tags_newest_first:
  "fst (get_latest_tags three_tags_repo empty_world) = Inr [''A'', ''C'', ''B'']"
  by code_simp

text \<open>
  Claim C5 says that a tag whose date fails to parse is sorted as the oldest. That is what
  happens for a date that \<open>strptime\<close> rejects (first line below). A date that is empty
  fails earlier: \<open>date_str.split()[0]\<close> raises \<open>IndexError\<close>, which the handler for
  \<open>ValueError\<close> does not catch (second line), so the sorted listing is given up as a whole
  and the tags come back in the order of \<open>git tag -l\<close>, the tag without date first (third
  line).
\<close>

theorem missing_date_abandons_sorting:
  "fst (get_latest_tags bad_date_repo empty_world) = Inr [''v2'', ''a-tree''] \<and>
   tags_loop [] (split newline (''a-tree|'' @ nl @ ''v2|2023-03-01 10:00:00 +0000'')) = Inl IndexError \<and>
   fst (get_latest_tags tree_tag_repo empty_world) = Inr [''a-tree'', ''v2'']"
  by code_simp

section \<open>The two tags\<close>

text \<open>
  Claim C6 says that, with or without an end tag from the caller, the default start tag is
  the first tag of the list that differs from the end tag. The loop runs over
  \<open>all_tags[1:]\<close>: with the end tag \<open>v2\<close> given, the start tag is \<open>v1\<close>, not \<open>v3\<close>.
\<close>

theorem start_default_counterexample:
  "select_tags [''v3'', ''v2'', ''v1''] None (Some ''v2'') = Inr (Some ''v1'', Some ''v2'') \<and>
   first_other (Some ''v2'') [''v3'', ''v2'', ''v1''] = Some ''v3''"
  by (simp add: select_tags_def truthy_def first_other_def)

text \<open>
  Claim C6 as the code has it, for a list of at least two tags: without an end tag from the
  caller, the end tag is the first tag of the list; without a start tag from the caller,
  the start tag is the first tag after the first position of the list that differs from the
  end tag, which, when the caller gave no end tag either, is the first tag of the whole list
  that differs from the end tag; when there is no such tag, the start tag stays as it was.
\<close>

theorem select_tags_defaults:
  assumes "2 \<le> length all_tags"
  shows "\<exists>start' end'. select_tags all_tags start_tag end_tag = Inr (start', end') \<and>
     (\<not> truthy end_tag \<longrightarrow> end' = Some (all_tags ! 0)) \<and>
     (truthy end_tag \<longrightarrow> end' = end_tag) \<and>
     (\<not> truthy start_tag \<longrightarrow>
        start' = (case first_other end' (drop 1 all_tags) of Some tag \<Rightarrow> Some tag | None \<Rightarrow> start_tag)) \<and>
     (\<not> truthy start_tag \<and> \<not> truthy end_tag \<longrightarrow>
        start' = (case first_other end' all_tags of Some tag \<Rightarrow> Some tag | None \<Rightarrow> start_tag)) \<and>
     (truthy start_tag \<longrightarrow> start' = start_tag)"
proof -
  from assms obtain t ts where all_tags: "all_tags = t # ts"
    by (cases all_tags) auto
  have "first_other (Some t) (t # ts) = first_other (Some t) ts"
    by (simp add: first_other_def)
  then show ?thesis
    unfolding all_tags select_tags_def by (simp add: drop_Suc)
qed

theorem select_tags_defaults_witness:
  "select_tags [''v3'', ''v2'', ''v1''] None None = Inr (Some ''v2'', Some ''v3'') \<and>
   select_tags [''v3'', ''v2'', ''v1''] None (Some ''v2'') = Inr (Some ''v1'', Some ''v2'')"
  using select_tags_defaults[of "[''v3'', ''v2'', ''v1'']" None None]
    select_tags_defaults[of "[''v3'', ''v2'', ''v1'']" None "Some ''v2''"]
  by (simp add: truthy_def first_other_def)

section \<open>The order of the two tags\<close>

lemma run_git_command_world:
  "snd (run_git_command e command allow_failure w) = w\<lparr>commands := commands w @ [command]\<rparr>"
  by (simp add: run_git_command_def Let_def split: proc.splits)

lemma run_git_command_result:
  "fst (run_git_command e command allow_failure w) =
     (case git e command of
        Completed rc out \<Rightarrow>
          (if rc = 0 then Inr (Some (strip out))
           else if allow_failure then Inr None else Inl (CalledProcessError rc))
      | Failed \<Rightarrow> Inl OtherError)"
  by (simp add: run_git_command_def Let_def split: proc.splits)

text \<open>
  What the step does, case by case. The pair is left as it is when the common-ancestor
  query cannot be run, ends with a return code other than 0 or prints nothing. When the
  query prints a common ancestor, the pair is swapped if the ancestor check ends with a
  return code other than 0, whichever it is, and left as it is if the check ends with 0 or
  cannot be run. A tag that is \<open>None\<close> leaves the pair as it is. The step has no error
  result: nothing it does aborts the run.
\<close>

lemma correct_order_cases:
  fixes e :: env and s t :: string and w :: world
  defines "base \<equiv> git e [''merge-base'', s, t]"
    and "check \<equiv> git e [''merge-base'', ''--is-ancestor'', s, t]"
    and "result \<equiv> fst (correct_order e (Some s) (Some t) w)"
  shows "(base = Failed \<or> (\<exists>rc out. base = Completed rc out \<and> (rc \<noteq> 0 \<or> strip out = []))
            \<longrightarrow> result = (Some s, Some t)) \<and>
         ((\<exists>out. base = Completed 0 out \<and> strip out \<noteq> []) \<and>
            (\<exists>rc out. check = Completed rc out \<and> rc \<noteq> 0)
            \<longrightarrow> result = (Some t, Some s)) \<and>
         ((\<exists>out. base = Completed 0 out \<and> strip out \<noteq> []) \<and>
            (check = Failed \<or> (\<exists>out. check = Completed 0 out))
            \<longrightarrow> result = (Some s, Some t)) \<and>
         fst (correct_order e None end_tag w) = (None, end_tag) \<and>
         fst (correct_order e start_tag None w) = (start_tag, None)"
  unfolding base_def check_def result_def correct_order_def run_git_command_def
  by (auto simp: Let_def truthy_def split: proc.splits option.splits)

lemma correct_order_examples:
  "fst (correct_order (ancestry_repo 0) (Some ''v1'') (Some ''v2'') empty_world) = (Some ''v1'', Some ''v2'') \<and>
   fst (correct_order (ancestry_repo 1) (Some ''v1'') (Some ''v2'') empty_world) = (Some ''v2'', Some ''v1'') \<and>
   fst (correct_order (ancestry_repo 128) (Some ''v1'') (Some ''v2'') empty_world) = (Some ''v2'', Some ''v1'') \<and>
   fst (correct_order unrelated_repo (Some ''v1'') (Some ''v2'') empty_world) = (Some ''v1'', Some ''v2'') \<and>
   fst (correct_order (example_env []) (Some ''v1'') (Some ''v2'') empty_world) = (Some ''v1'', Some ''v2'')"
  using correct_order_cases[of "ancestry_repo 0" "''v1''" "''v2''" empty_world]
    correct_order_cases[of "ancestry_repo 1" "''v1''" "''v2''" empty_world]
    correct_order_cases[of "ancestry_repo 128" "''v1''" "''v2''" empty_world]
    correct_order_cases[of unrelated_repo "''v1''" "''v2''" empty_world]
    correct_order_cases[of "example_env []" "''v1''" "''v2''" empty_world]
  by (simp add: ancestry_repo_def unrelated_repo_def example_env_def answers_def strip_def nl_def
      char_class_defs)

text \<open>
  Claim C7 says that the tags are swapped when the ancestor check reports that the start
  tag is no ancestor of the end tag, and that a failure of the ancestry commands themselves
  is swallowed and keeps the order. The claim is what the code sets out to do: the handler
  of \<open>CalledProcessError\<close> is commented as the case where the start tag is not an ancestor,
  and a failure of the common-ancestor query keeps the order (last line below). But the
  handler catches every return code other than 0. When \<open>merge-base --is-ancestor\<close> itself
  fails, which git signals with a return code other than 0 and 1, here 128, the failure is
  taken for the answer that the start tag is no ancestor, and the tags are swapped (first
  two lines below).
\<close>

theorem failed_ancestor_check_swaps:
  "git (ancestry_repo 128) [''merge-base'', ''--is-ancestor'', ''v1'', ''v2''] = Completed 128 [] \<and>
   fst (correct_order (ancestry_repo 128) (Some ''v1'') (Some ''v2'') empty_world) =
     (Some ''v2'', Some ''v1'') \<and>
   fst (correct_order unrelated_repo (Some ''v1'') (Some ''v2'') empty_world) =
     (Some ''v1'', Some ''v2'')"
  by (simp add: correct_order_def run_git_command_def ancestry_repo_def unrelated_repo_def
      example_env_def answers_def truthy_def strip_def nl_def char_class_defs empty_world_def)

section \<open>Categories\<close>

lemma distinct_keys: "distinct (map fst COMMIT_TYPES)"
  by (simp add: COMMIT_TYPES_def)

lemma other_key: "''other'' \<in> set (map fst COMMIT_TYPES)"
  by (simp add: COMMIT_TYPES_def)

lemma dict_append_map:
  "distinct (map fst d) \<Longrightarrow>
   dict_append k x d = map (\<lambda>(k', v). (k', if k' = k then v @ [x] else v)) d"
proof (induction d)
  case Nil
  show ?case by simp
next
  case (Cons p d)
  obtain k' v where p: "p = (k', v)" by (cases p)
  show ?case
  proof (cases "k' = k")
    case True
    then have "\<forall>q\<in>set d. fst q \<noteq> k" using Cons.prems p by auto
    then have "map (\<lambda>(k', v). (k', if k' = k then v @ [x] else v)) d = d"
      by (intro map_idI) auto
    then show ?thesis using p True by simp
  next
    case False
    then show ?thesis using Cons p by simp
  qed
qed

lemma add_commit_map:
  assumes "distinct (map fst d)" and "map fst d = map fst COMMIT_TYPES"
  shows "add_commit d c = map (\<lambda>(k, v). (k, if k = category_of c then v @ [c] else v)) d"
proof -
  have "add_commit d c = dict_append (category_of c) c d"
    using assms(2) by (simp add: add_commit_def has_key_def category_of_def)
  then show ?thesis using dict_append_map[OF assms(1)] by simp
qed

lemma foldl_add_commit:
  assumes "distinct (map fst d)" and "map fst d = map fst COMMIT_TYPES"
  shows "foldl add_commit d commits =
           map (\<lambda>(k, v). (k, v @ filter (\<lambda>c. category_of c = k) commits)) d"
  using assms
proof (induction commits arbitrary: d)
  case Nil
  show ?case by simp
next
  case (Cons c commits)
  let ?d = "map (\<lambda>(k, v). (k, if k = category_of c then v @ [c] else v)) d"
  have step: "add_commit d c = ?d" by (rule add_commit_map[OF Cons.prems])
  have keys: "map fst ?d = map fst d" by (induction d) auto
  have "foldl add_commit ?d commits =
          map (\<lambda>(k, v). (k, v @ filter (\<lambda>c. category_of c = k) commits)) ?d"
    using Cons.IH[of ?d] Cons.prems keys by simp
  also have "\<dots> = map (\<lambda>(k, v). (k, v @ filter (\<lambda>c. category_of c = k) (c # commits))) d"
    by (induction d) auto
  finally show ?case using step by simp
qed

lemma empty_groups_keys: "map fst (map (\<lambda>k. (k, [])) ks) = ks"
  by (induction ks) auto

lemma fill_groups:
  "map (\<lambda>(k, v). (k, v @ g k)) (map (\<lambda>k. (k, [])) ks) = map (\<lambda>k. (k, g k)) ks"
  by (induction ks) auto

lemma nonempty_groups_keys:
  "map fst (filter (\<lambda>(k, v). v \<noteq> []) (map (\<lambda>k. (k, g k)) ks)) = filter (\<lambda>k. g k \<noteq> []) ks"
  by (induction ks) auto

lemma categorize_commits_eq:
  "categorize_commits commits =
     filter (\<lambda>(k, v). v \<noteq> [])
       (map (\<lambda>k. (k, filter (\<lambda>c. category_of c = k) commits)) (map fst COMMIT_TYPES))"
proof -
  let ?d = "map (\<lambda>k. (k, [] :: GitCommit list)) (map fst COMMIT_TYPES)"
  have keys: "map fst ?d = map fst COMMIT_TYPES" by (rule empty_groups_keys)
  have "distinct (map fst ?d)" unfolding keys by (rule distinct_keys)
  then have "foldl add_commit ?d commits =
          map (\<lambda>(k, v). (k, v @ filter (\<lambda>c. category_of c = k) commits)) ?d"
    using keys by (rule foldl_add_commit)
  also have "\<dots> = map (\<lambda>k. (k, filter (\<lambda>c. category_of c = k) commits)) (map fst COMMIT_TYPES)"
    by (rule fill_groups)
  finally show ?thesis unfolding categorize_commits_def Let_def by simp
qed

lemma category_of_key: "category_of c \<in> set (map fst COMMIT_TYPES)"
  using other_key by (simp add: category_of_def)

lemma concat_nonempty:
  "concat (map snd (filter (\<lambda>(k, v). v \<noteq> []) d)) = concat (map snd d)"
  by (induction d) auto

lemma mset_groups:
  assumes "distinct ks"
  shows "mset (concat (map (\<lambda>k. filter (\<lambda>c. f c = k) cs) ks)) = mset (filter (\<lambda>c. f c \<in> set ks) cs)"
  using assms
proof (induction ks)
  case Nil
  show ?case by simp
next
  case (Cons k ks)
  have "mset (filter (\<lambda>c. f c = k) cs) + mset (filter (\<lambda>c. f c \<in> set ks) cs) =
        mset (filter (\<lambda>c. f c \<in> set (k # ks)) cs)"
    using Cons.prems by (induction cs) auto
  then show ?case using Cons by simp
qed

text \<open>
  Claim C8. In the result of \<open>categorize_commits\<close> no key has an empty list; every key is a
  key of the table and its list is the input filtered for the commits of that category,
  hence in the order of the input; no key occurs twice; every commit of the input is in the
  list of its category, which is \<open>other\<close> when the table does not have its type, and in the
  list of no other key; and all lists together are a permutation of the input.
\<close>

theorem categorize_commits_partition:
  "(\<forall>(k, v) \<in> set (categorize_commits commits).
      v \<noteq> [] \<and> k \<in> set (map fst COMMIT_TYPES) \<and> v = filter (\<lambda>c. category_of c = k) commits) \<and>
   distinct (map fst (categorize_commits commits)) \<and>
   (\<forall>c \<in> set commits. \<exists>v. (category_of c, v) \<in> set (categorize_commits commits) \<and> c \<in> set v) \<and>
   (\<forall>c \<in> set commits. \<forall>k v. (k, v) \<in> set (categorize_commits commits) \<and> c \<in> set v
      \<longrightarrow> k = category_of c) \<and>
   mset (concat (map snd (categorize_commits commits))) = mset commits"
proof (intro conjI)
  let ?g = "\<lambda>k. (k, filter (\<lambda>c. category_of c = k) commits)"
  let ?keys = "map fst COMMIT_TYPES"
  have eq: "categorize_commits commits = filter (\<lambda>(k, v). v \<noteq> []) (map ?g ?keys)"
    by (rule categorize_commits_eq)
  show entries: "\<forall>(k, v) \<in> set (categorize_commits commits).
      v \<noteq> [] \<and> k \<in> set ?keys \<and> v = filter (\<lambda>c. category_of c = k) commits"
    unfolding eq by auto
  have "map fst (filter (\<lambda>(k, v). v \<noteq> []) (map ?g ?keys)) =
        filter (\<lambda>k. filter (\<lambda>c. category_of c = k) commits \<noteq> []) ?keys"
    by (rule nonempty_groups_keys)
  then show "distinct (map fst (categorize_commits commits))"
    unfolding eq using distinct_keys by simp
  show "\<forall>c \<in> set commits. \<exists>v. (category_of c, v) \<in> set (categorize_commits commits) \<and> c \<in> set v"
  proof
    fix c assume c: "c \<in> set commits"
    let ?v = "filter (\<lambda>c'. category_of c' = category_of c) commits"
    have in_v: "c \<in> set ?v" using c by simp
    then have "?v \<noteq> []" by (metis empty_iff list.set(1))
    then have "(category_of c, ?v) \<in> set (categorize_commits commits)"
      unfolding eq using category_of_key[of c] by auto
    with in_v
    show "\<exists>v. (category_of c, v) \<in> set (categorize_commits commits) \<and> c \<in> set v"
      by blast
  qed
  show "\<forall>c \<in> set commits. \<forall>k v. (k, v) \<in> set (categorize_commits commits) \<and> c \<in> set v
      \<longrightarrow> k = category_of c"
    using entries by fastforce
  have "mset (concat (map snd (categorize_commits commits))) =
        mset (concat (map (\<lambda>k. filter (\<lambda>c. category_of c = k) commits) ?keys))"
    unfolding eq concat_nonempty by (simp add: comp_def)
  also have "\<dots> = mset (filter (\<lambda>c. category_of c \<in> set ?keys) commits)"
    by (rule mset_groups[OF distinct_keys])
  also have "\<dots> = mset commits"
    using category_of_key by simp
  finally show "mset (concat (map snd (categorize_commits commits))) = mset commits" .
qed

theorem categorize_commits_partition_witness:
  "categorize_commits example_commits =
     [(''fix'', [example_commits ! 0, example_commits ! 2]), (''other'', [example_commits ! 1])] \<and>
   distinct (map fst (categorize_commits example_commits)) \<and>
   mset (concat (map snd (categorize_commits example_commits))) = mset example_commits"
proof -
  have "categorize_commits example_commits =
     [(''fix'', [example_commits ! 0, example_commits ! 2]), (''other'', [example_commits ! 1])]"
    by code_simp
  moreover note categorize_commits_partition[of example_commits, THEN conjunct2, THEN conjunct1]
  moreover note categorize_commits_partition[of example_commits, THEN conjunct2, THEN conjunct2,
      THEN conjunct2, THEN conjunct2]
  ultimately show ?thesis by (intro conjI)
qed

section \<open>Fewer than two tags\<close>

lemma is_git_repo_eq:
  "is_git_repo e w =
     ((case git e [''rev-parse'', ''--git-dir''] of
         Completed rc out \<Rightarrow> Inr (rc = 0) | Failed \<Rightarrow> Inl OtherError),
      w\<lparr>commands := commands w @ [[''rev-parse'', ''--git-dir'']]\<rparr>)"
  by (simp add: is_git_repo_def run_git_command_def Let_def split: proc.splits)

lemma tag_listing_eq:
  "\<exists>r. \<forall>w. tag_listing e w = (r, w\<lparr>commands := commands w @ [[''tag'', ''-l'']]\<rparr>)"
  by (cases "git e [''tag'', ''-l'']")
     (auto simp: tag_listing_def run_git_command_def Let_def)

lemma get_latest_tags_eq:
  "\<exists>r cs. set cs \<subseteq> tag_commands \<and>
     (\<forall>w. get_latest_tags e w = (r, w\<lparr>commands := commands w @ cs\<rparr>))"
proof -
  let ?rp = "[''rev-parse'', ''--git-dir'']"
  obtain rl where rl: "\<And>w. tag_listing e w = (rl, w\<lparr>commands := commands w @ [[''tag'', ''-l'']]\<rparr>)"
    using tag_listing_eq[of e] by blast
  have pre: "\<And>w. fst (is_git_repo e w) \<noteq> Inr True \<Longrightarrow>
      get_latest_tags e w =
        ((case fst (is_git_repo e w) of Inl err \<Rightarrow> Inl err | Inr _ \<Rightarrow> Inl NotAGitRepository),
         w\<lparr>commands := commands w @ [?rp]\<rparr>)"
    by (auto simp: get_latest_tags_def is_git_repo_eq split: proc.splits sum.splits bool.splits)
  show ?thesis
  proof (cases "git e ?rp = Completed 0 (case git e ?rp of Completed _ out \<Rightarrow> out | Failed \<Rightarrow> [])")
    case False
    then have "\<And>w. fst (is_git_repo e w) \<noteq> Inr True"
      by (auto simp: is_git_repo_eq split: proc.splits)
    then have "\<forall>w. get_latest_tags e w =
        ((case fst (is_git_repo e empty_world) of Inl err \<Rightarrow> Inl err | Inr _ \<Rightarrow> Inl NotAGitRepository),
         w\<lparr>commands := commands w @ [?rp]\<rparr>)"
      using pre by (simp add: is_git_repo_eq)
    moreover have "set [?rp] \<subseteq> tag_commands" by (simp add: tag_commands_def)
    ultimately show ?thesis by blast
  next
    case True
    then have repo: "\<And>w. is_git_repo e w = (Inr True, w\<lparr>commands := commands w @ [?rp]\<rparr>)"
      by (auto simp: is_git_repo_eq split: proc.splits)
    have sub3: "set [?rp, for_each_ref, [''tag'', ''-l'']] \<subseteq> tag_commands"
      by (simp add: tag_commands_def)
    have listing: "\<And>w. tag_listing e (w\<lparr>commands := commands w @ [?rp, for_each_ref]\<rparr>) =
        (rl, w\<lparr>commands := commands w @ [?rp, for_each_ref, [''tag'', ''-l'']]\<rparr>)"
      by (simp add: rl)
    show ?thesis
    proof (cases "git e for_each_ref")
      case Failed
      then have "\<forall>w. get_latest_tags e w =
          (rl, w\<lparr>commands := commands w @ [?rp, for_each_ref, [''tag'', ''-l'']]\<rparr>)"
        by (simp add: get_latest_tags_def repo run_git_command_def Let_def listing)
      with sub3 show ?thesis by blast
    next
      case (Completed rc out)
      show ?thesis
      proof (cases "rc = 0 \<and> strip out \<noteq> []")
        case False
        then have "\<forall>w. get_latest_tags e w =
            (rl, w\<lparr>commands := commands w @ [?rp, for_each_ref, [''tag'', ''-l'']]\<rparr>)"
          using Completed by (auto simp: get_latest_tags_def repo run_git_command_def Let_def listing)
        with sub3 show ?thesis by blast
      next
        case True
        show ?thesis
        proof (cases "tags_loop [] (split newline (strip out))")
          case (Inl err)
          then have "\<forall>w. get_latest_tags e w =
              (rl, w\<lparr>commands := commands w @ [?rp, for_each_ref, [''tag'', ''-l'']]\<rparr>)"
            using Completed True by (simp add: get_latest_tags_def repo run_git_command_def Let_def listing)
          with sub3 show ?thesis by blast
        next
          case (Inr tags)
          then have "\<forall>w. get_latest_tags e w =
              (Inr (map fst (sort_newest_first tags)),
               w\<lparr>commands := commands w @ [?rp, for_each_ref]\<rparr>)"
            using Completed True by (simp add: get_latest_tags_def repo run_git_command_def Let_def)
          moreover have "set [?rp, for_each_ref] \<subseteq> tag_commands" by (simp add: tag_commands_def)
          ultimately show ?thesis by blast
        qed
      qed
    qed
  qed
qed

lemma log_cmd_not_tag_command: "log_cmd s t \<notin> tag_commands"
  by (simp add: tag_commands_def log_cmd_def for_each_ref_def)

text \<open>
  Claim C9. When the repository yields fewer than two tags, \<open>generate_release_notes\<close> ends
  with the error for no tags or for fewer than two tags. All it has done by then is run
  the commands that check the repository and list its tags, in one pass and without asking
  again: the log of commits was not asked for, and no file was written.
\<close>

theorem fewer_than_two_tags:
  assumes "fst (get_latest_tags e w) = Inr all_tags" and "length all_tags < 2"
  shows "\<exists>cs. generate_release_notes e start_tag end_tag output_file version_title w =
           (Inl (if all_tags = [] then NoTagsFound else NeedAtLeastTwoTags),
            w\<lparr>commands := commands w @ cs\<rparr>) \<and>
         set cs \<subseteq> tag_commands \<and> (\<forall>s t. log_cmd s t \<notin> set cs) \<and>
         files (w\<lparr>commands := commands w @ cs\<rparr>) = files w"
proof -
  let ?rp = "[''rev-parse'', ''--git-dir'']"
  obtain r cs where cs: "set cs \<subseteq> tag_commands"
    and tags: "\<And>w. get_latest_tags e w = (r, w\<lparr>commands := commands w @ cs\<rparr>)"
    using get_latest_tags_eq[of e] by blast
  have r: "r = Inr all_tags" using assms(1) tags[of w] by simp
  have repo: "is_git_repo e w = (Inr True, w\<lparr>commands := commands w @ [?rp]\<rparr>)"
    using assms(1) unfolding get_latest_tags_def
    by (auto simp: is_git_repo_eq split: proc.splits sum.splits bool.splits if_splits)
  have run: "generate_release_notes e start_tag end_tag output_file version_title w =
      (Inl (if all_tags = [] then NoTagsFound else NeedAtLeastTwoTags),
       w\<lparr>commands := commands w @ (?rp # cs)\<rparr>)"
    using assms(2) by (simp add: generate_release_notes_def repo tags r)
  have "set (?rp # cs) \<subseteq> tag_commands" using cs by (simp add: tag_commands_def)
  moreover from this have "\<forall>s t. log_cmd s t \<notin> set (?rp # cs)"
    using log_cmd_not_tag_command by blast
  ultimately show ?thesis using run by (intro exI[of _ "?rp # cs"]) simp
qed

theorem fewer_than_two_tags_witness:
  "fst (get_latest_tags one_tag_repo empty_world) = Inr [''v1''] \<and>
   fst (generate_release_notes one_tag_repo None None ''RELEASE_NOTES.md'' None empty_world) =
     Inl NeedAtLeastTwoTags \<and>
   files (snd (generate_release_notes one_tag_repo None None ''RELEASE_NOTES.md'' None empty_world)) = []"
proof -
  have tags: "fst (get_latest_tags one_tag_repo empty_world) = Inr [''v1'']"
    by code_simp
  from fewer_than_two_tags[OF tags, of None None "''RELEASE_NOTES.md''" None]
  show ?thesis using tags by (auto simp: empty_world_def)
qed

section \<open>The lines of the log\<close>

lemma split_max_cut:
  assumes "sep \<notin> set h"
  shows "split_max sep (Suc n) (h @ sep # r) = h # split_max sep n r"
proof -
  have "takeWhile (\<lambda>c. c \<noteq> sep) (h @ sep # r) = h"
    using assms by (induction h) auto
  moreover have "dropWhile (\<lambda>c. c \<noteq> sep) (h @ sep # r) = sep # r"
    using assms by (induction h) auto
  ultimately show ?thesis by simp
qed

lemma split_max_four:
  assumes "bar \<notin> set h" and "bar \<notin> set a" and "bar \<notin> set d"
  shows "split_max bar 3 (h @ [bar] @ a @ [bar] @ d @ [bar] @ s) = [h, a, d, s]"
proof -
  have "split_max bar (Suc (Suc (Suc 0))) (h @ bar # a @ bar # d @ bar # s) = [h, a, d, s]"
    unfolding split_max_cut[OF assms(1)] split_max_cut[OF assms(2)] split_max_cut[OF assms(3)]
    by simp
  then show ?thesis by (simp add: eval_nat_numeral)
qed

lemma count_list_split:
  assumes "sep \<in> set s"
  shows "count_list s sep = Suc (count_list (tl (dropWhile (\<lambda>c. c \<noteq> sep) s)) sep)"
  using assms by (induction s) auto

lemma length_split_max: "length (split_max sep n s) = Suc (min n (count_list s sep))"
proof (induction n arbitrary: s)
  case 0
  show ?case by simp
next
  case (Suc n)
  show ?case
  proof (cases "sep \<in> set s")
    case True
    then show ?thesis using Suc[of "tl (dropWhile (\<lambda>c. c \<noteq> sep) s)"] count_list_split[OF True]
      by simp
  next
    case False
    then have "count_list s sep = 0" by (simp add: count_list_0_iff)
    with False show ?thesis by simp
  qed
qed

lemma log_line_dropped:
  assumes "strip line = [] \<or> count_list line bar < 3"
  shows "log_line line = Inr None"
proof (cases "strip line = []")
  case True
  then show ?thesis by (simp add: log_line_def)
next
  case False
  with assms have "count_list line bar < 3" by simp
  then have "length (split_max bar 3 line) < 4"
    unfolding length_split_max by simp
  then show ?thesis by (simp add: log_line_def Let_def)
qed

lemma log_line_kept:
  assumes "strip (h @ [bar] @ a @ [bar] @ d @ [bar] @ s) \<noteq> []"
    and "bar \<notin> set h" and "bar \<notin> set a" and "bar \<notin> set d"
  shows "log_line (h @ [bar] @ a @ [bar] @ d @ [bar] @ s) =
           Inr (Some (new_GitCommit (take 8 h) s a d))"
  using assms(1) unfolding log_line_def split_max_four[OF assms(2-4)] by simp

lemma log_line_no_error: "log_line line \<noteq> Inl err"
proof -
  have "length (split_max bar 3 line) \<le> 4"
    unfolding length_split_max by simp
  then have "4 \<le> length (split_max bar 3 line) \<Longrightarrow>
      \<exists>p q r s. split_max bar 3 line = [p, q, r, s]"
    by (cases "split_max bar 3 line" rule: list.exhaust)
       (auto simp: length_Suc_conv Suc_le_length_iff eval_nat_numeral)
  then show ?thesis
    by (auto simp: log_line_def Let_def)
qed

lemma commits_loop_eq: "commits_loop commits lines = Inr (commits @ concat (map line_commits lines))"
proof (induction lines arbitrary: commits)
  case Nil
  show ?case by simp
next
  case (Cons line lines)
  show ?case
  proof (cases "log_line line")
    case (Inl err)
    then show ?thesis using log_line_no_error by blast
  next
    case (Inr r)
    then show ?thesis using Cons by (cases r) (simp_all add: line_commits_def)
  qed
qed

lemma new_GitCommit_fields:
  "hash (new_GitCommit h subj auth d) = h" "subject (new_GitCommit h subj auth d) = subj"
  "author (new_GitCommit h subj auth d) = auth" "date (new_GitCommit h subj auth d) = d"
  by (simp_all add: new_GitCommit_def split: prod.splits)

text \<open>
  Claim C10. A line of the log that is blank or has fewer than three bars, hence fewer than
  four fields, adds no commit. A line that is not blank and has the fields hash, author,
  date and subject adds one commit: its identifier is the first eight characters of the
  hash, and its subject is all that follows the third bar, further bars included. The
  result of \<open>get_commits_between_tags\<close> is what the lines of the output add, in their order,
  and never an error once git has answered.
\<close>

theorem log_lines_to_commits:
  "(strip line = [] \<or> count_list line bar < 3 \<longrightarrow> line_commits line = []) \<and>
   (strip (h @ [bar] @ a @ [bar] @ d @ [bar] @ s) \<noteq> [] \<and>
      bar \<notin> set h \<and> bar \<notin> set a \<and> bar \<notin> set d \<longrightarrow>
      (\<exists>commit. line_commits (h @ [bar] @ a @ [bar] @ d @ [bar] @ s) = [commit] \<and>
         hash commit = take 8 h \<and> subject commit = s \<and> author commit = a \<and> date commit = d)) \<and>
   (git e (log_cmd start_tag end_tag) = Completed 0 out \<longrightarrow>
      fst (get_commits_between_tags e start_tag end_tag w) =
        Inr (concat (map line_commits (if strip out = [] then [] else split newline (strip out)))))"
proof (intro conjI impI)
  assume "strip line = [] \<or> count_list line bar < 3"
  then show "line_commits line = []"
    by (simp add: line_commits_def log_line_dropped)
next
  assume "strip (h @ [bar] @ a @ [bar] @ d @ [bar] @ s) \<noteq> [] \<and>
      bar \<notin> set h \<and> bar \<notin> set a \<and> bar \<notin> set d"
  then have "log_line (h @ [bar] @ a @ [bar] @ d @ [bar] @ s) =
      Inr (Some (new_GitCommit (take 8 h) s a d))"
    using log_line_kept by blast
  then have "line_commits (h @ [bar] @ a @ [bar] @ d @ [bar] @ s) = [new_GitCommit (take 8 h) s a d]"
    by (simp add: line_commits_def)
  then show "\<exists>commit. line_commits (h @ [bar] @ a @ [bar] @ d @ [bar] @ s) = [commit] \<and>
         hash commit = take 8 h \<and> subject commit = s \<and> author commit = a \<and> date commit = d"
    using new_GitCommit_fields by blast
next
  assume "git e (log_cmd start_tag end_tag) = Completed 0 out"
  then show "fst (get_commits_between_tags e start_tag end_tag w) =
        Inr (concat (map line_commits (if strip out = [] then [] else split newline (strip out))))"
    by (simp add: get_commits_between_tags_def run_git_command_def Let_def truthy_def commits_loop_eq)
qed

theorem log_lines_to_commits_witness:
  "line_commits ''   '' = [] \<and> line_commits ''fedcba98|Bob|Tue'' = [] \<and>
   (\<exists>commit. line_commits ''0123456789abcdef|Ann|Mon Mar 6|feat(ui): add a | b'' = [commit] \<and>
      hash commit = ''01234567'' \<and> subject commit = ''feat(ui): add a | b'' \<and>
      author commit = ''Ann'' \<and> date commit = ''Mon Mar 6'')"
proof -
  have blank: "strip ''   '' = []"
    by (simp add: strip_def char_class_defs)
  have few: "count_list ''fedcba98|Bob|Tue'' bar < 3"
    by (simp add: bar_def)
  have full: "strip (''0123456789abcdef'' @ [bar] @ ''Ann'' @ [bar] @ ''Mon Mar 6'' @ [bar] @
      ''feat(ui): add a | b'') \<noteq> [] \<and> bar \<notin> set ''0123456789abcdef'' \<and> bar \<notin> set ''Ann'' \<and>
      bar \<notin> set ''Mon Mar 6''"
    by (simp add: strip_def bar_def char_class_defs)
  have "line_commits ''   '' = []"
    using log_lines_to_commits[where line = "''   ''", THEN conjunct1] blank by blast
  moreover have "line_commits ''fedcba98|Bob|Tue'' = []"
    using log_lines_to_commits[where line = "''fedcba98|Bob|Tue''", THEN conjunct1] few by blast
  moreover have "\<exists>commit. line_commits ''0123456789abcdef|Ann|Mon Mar 6|feat(ui): add a | b'' = [commit] \<and>
      hash commit = ''01234567'' \<and> subject commit = ''feat(ui): add a | b'' \<and>
      author commit = ''Ann'' \<and> date commit = ''Mon Mar 6''"
    using log_lines_to_commits[where h = "''0123456789abcdef''" and a = "''Ann''"
        and d = "''Mon Mar 6''" and s = "''feat(ui): add a | b''", THEN conjunct2, THEN conjunct1]
      full
    by (simp add: bar_def)
  ultimately show ?thesis by (intro conjI)
qed

lemma log_repo_commits:
  "fst (get_commits_between_tags log_repo (Some ''v1'') (Some ''v2'') empty_world) =
     Inr [new_GitCommit ''01234567'' ''feat(ui): add a | b'' ''Ann'' ''Mon Mar 6'',
          new_GitCommit ''89abcdef'' ''Update README'' ''Bob'' ''Tue Mar 7'']"
  by code_simp

end
